theory Spec2Isabelle
  imports Main "HOL-Library.Word"
begin

unbundle bit_operations_syntax

section \<open>Data model\<close>

text \<open>
  The package is generic over \<open>T\<close> in \<open>uint8 | uint16 | uint32 | uint64\<close>; the register
  type is modelled as \<open>'a word\<close>, and the theorems that depend on the container having
  at least eight bits say so. Input bytes are \<open>8 word\<close>. Go's \<open>int\<close> (the width, a bit
  length) is modelled as \<open>int\<close>; the only arithmetic on it is \<open>len(data) << 3\<close>, which
  cannot overflow 64 bits for a slice that fits in memory.
\<close>

type_synonym byte = "8 word"

text \<open>
  \<open>Err\<close> is an \<open>error\<close> value returned to the caller (\<open>errors.New\<close>), \<open>Panic\<close> is a
  run-time panic.
\<close>

datatype failure = Err string | Panic string

record (overloaded) ('a::len) algo =
  width :: int
  refPoly :: "'a word"
  refInit :: "'a word"
  xorout :: "'a word"
  refin :: bool
  refout :: bool
  table :: "'a word list"

text \<open>
  The session \<open>crc[T]\<close>: the pointer \<open>a\<close> to its engine (the engine is never written
  through it, so it is held by value) and the register \<open>reg\<close>.
\<close>

record (overloaded) ('a::len) crc =
  crc_a :: "'a algo"
  crc_reg :: "'a word"

section \<open>reflect and the reflected-byte table\<close>

text \<open>
  \<open>reflect\<close>: \<open>x := val & 1\<close>, then for \<open>i = 1 .. numBits - 1\<close> the body
  \<open>val >>= 1; x <<= 1; x |= val & 1\<close>. The loop runs \<open>numBits - 1\<close> times, and not at
  all when \<open>numBits \<le> 1\<close>.
\<close>

fun reflect_loop :: "nat \<Rightarrow> 'a::len word \<Rightarrow> 'a word \<Rightarrow> 'a word" where
  "reflect_loop 0 val x = x"
| "reflect_loop (Suc n) val x =
     (let val' = drop_bit 1 val;
          x' = push_bit 1 x
      in reflect_loop n val' (x' OR (val' AND 1)))"

definition reflect :: "'a::len word \<Rightarrow> int \<Rightarrow> 'a word" where
  "reflect val numBits = reflect_loop (nat (numBits - 1)) val (val AND 1)"

text \<open>
  \<open>reflectedBytes\<close> is a zeroed \<open>[256]byte\<close>; \<open>init\<close> stores \<open>reflect(i, 8)\<close> at every
  \<open>i\<close> from 1 to 255 (the loop counter is a byte and stops when it wraps to 0).
\<close>

definition reflectedBytes :: "byte list" where
  "reflectedBytes = foldl (\<lambda>t i. t[i := reflect (of_nat i) 8]) (replicate 256 0) [1..<256]"

section \<open>The engine\<close>

text \<open>
  \<open>bbbUpd\<close>, the bit-by-bit update. \<open>bitLen\<close> is a natural number here: the two call
  sites pass 8 and \<open>bitLen & 7 > 0\<close>. The constant in \<open>(1 << bitLen) - 1\<close> takes the type
  of \<open>b\<close>, a byte, so for \<open>bitLen = 8\<close> the mask is \<open>0 - 1 = 0xff\<close>.
\<close>

fun bbbLoop :: "'a::len word \<Rightarrow> nat \<Rightarrow> 'a word \<Rightarrow> 'a word" where
  "bbbLoop p 0 reg = reg"
| "bbbLoop p (Suc n) reg =
     bbbLoop p n (if reg AND 1 \<noteq> 0 then drop_bit 1 reg XOR p else drop_bit 1 reg)"

definition bbbUpd :: "'a::len algo \<Rightarrow> 'a word \<Rightarrow> byte \<Rightarrow> nat \<Rightarrow> 'a word" where
  "bbbUpd a reg b bitLen =
     (let b1 = (if \<not> refin a then reflectedBytes ! unat b else b);
          b2 = b1 AND (push_bit bitLen 1 - 1);
          reg1 = reg XOR ucast b2
      in bbbLoop (refPoly a) bitLen reg1)"

definition checkParams :: "int \<Rightarrow> 'a::len word \<Rightarrow> 'a word \<Rightarrow> 'a word \<Rightarrow> failure option" where
  "checkParams w poly ini xo =
     (if w \<le> 0 \<or> push_bit (nat (w - 1)) (1 :: 'a word) = 0
      then Some (Err ''width must be greater than zero and less than or equal to the bit width of T'')
      else let m = push_bit (nat w) (1 :: 'a word) - 1 in
           if poly > m \<or> ini > m \<or> xo > m
           then Some (Err ''poly, init or xorout is outside of the range allowed by width'')
           else None)"

text \<open>
  \<open>NewAlgo\<close>: after \<open>checkParams\<close>, the struct literal with a zeroed table, then the loop
  \<open>for i := 1; i < 256; i++ { a.table[i] = a.bbbUpd(T(i), 0, 8) }\<close>: the register
  argument is \<open>T(i)\<close> and the byte argument is 0. \<open>setEntry\<close> is the loop body and
  \<open>newTable\<close> is the function from the struct literal to the end of the loop.
\<close>

definition setEntry :: "'a::len algo \<Rightarrow> nat \<Rightarrow> 'a algo" where
  "setEntry a i = a\<lparr>table := (table a)[i := bbbUpd a (of_nat i) 0 8]\<rparr>"

definition newTable :: "int \<Rightarrow> 'a::len word \<Rightarrow> 'a word \<Rightarrow> 'a word \<Rightarrow> bool \<Rightarrow> bool \<Rightarrow> 'a algo" where
  "newTable w poly ini xo ri ro =
     foldl setEntry
       \<lparr>width = w, refPoly = reflect poly w, refInit = reflect ini w, xorout = xo,
        refin = ri, refout = ro, table = replicate 256 0\<rparr>
       [1..<256]"

definition NewAlgo ::
  "int \<Rightarrow> 'a::len word \<Rightarrow> 'a word \<Rightarrow> 'a word \<Rightarrow> bool \<Rightarrow> bool \<Rightarrow> failure + 'a algo" where
  "NewAlgo w poly ini xo ri ro =
     (case checkParams w poly ini xo of
        Some err \<Rightarrow> Inl err
      | None \<Rightarrow> Inr (newTable w poly ini xo ri ro))"

text \<open>
  \<open>tblUpd\<close>. The loop over \<open>data[:n]\<close> is \<open>tblLoop\<close>; \<open>tblRun\<close> is the part of the
  function after \<open>n\<close> and \<open>bitsLeft\<close> have been chosen. The two run-time bounds checks
  of Go (\<open>data[:n]\<close> and \<open>data[n]\<close>) are branches of the model.
\<close>

fun tblLoop :: "'a::len algo \<Rightarrow> 'a word \<Rightarrow> byte list \<Rightarrow> 'a word" where
  "tblLoop a reg [] = reg"
| "tblLoop a reg (b # bs) =
     (let b1 = (if \<not> refin a then reflectedBytes ! unat b else b)
      in tblLoop a (table a ! unat ((ucast reg :: byte) XOR b1) XOR drop_bit 8 reg) bs)"

definition tblRun :: "'a::len algo \<Rightarrow> 'a word \<Rightarrow> byte list \<Rightarrow> nat \<Rightarrow> nat \<Rightarrow> failure + 'a word" where
  "tblRun a reg data n bitsLeft =
     (if n > length data then Inl (Panic ''slice bounds out of range'')
      else
        let reg1 = tblLoop a reg (take n data)
        in if bitsLeft > 0
           then (if n < length data then Inr (bbbUpd a reg1 (data ! n) bitsLeft)
                 else Inl (Panic ''index out of range''))
           else Inr reg1)"

definition tblUpd :: "'a::len algo \<Rightarrow> 'a word \<Rightarrow> byte list \<Rightarrow> int \<Rightarrow> failure + 'a word" where
  "tblUpd a reg data bitLen =
     (if bitLen < 0 then tblRun a reg data (length data) 0
      else if bitLen > push_bit 3 (int (length data))
      then Inl (Panic ''bitLen is greater than the number of bits in the input data'')
      else tblRun a reg data (nat (drop_bit 3 bitLen)) (nat (bitLen AND 7)))"

section \<open>The session\<close>

definition NewCRC :: "'a::len algo \<Rightarrow> 'a crc" where
  "NewCRC a = \<lparr>crc_a = a, crc_reg = refInit a\<rparr>"

text \<open>
  Every method takes the session and returns the session it leaves behind, next to its
  result. \<open>UpdateBits\<close> assigns \<open>c.reg\<close> only after \<open>tblUpd\<close> has returned, so a panic
  leaves the session as it was.
\<close>

definition UpdateBits :: "'a::len crc \<Rightarrow> byte list \<Rightarrow> int \<Rightarrow> failure option \<times> 'a crc" where
  "UpdateBits c data bitLen =
     (case tblUpd (crc_a c) (crc_reg c) data bitLen of
        Inl f \<Rightarrow> (Some f, c)
      | Inr r \<Rightarrow> (None, c\<lparr>crc_reg := r\<rparr>))"

definition Update :: "'a::len crc \<Rightarrow> byte list \<Rightarrow> failure option \<times> 'a crc" where
  "Update c data =
     (case tblUpd (crc_a c) (crc_reg c) data (- 1) of
        Inl f \<Rightarrow> (Some f, c)
      | Inr r \<Rightarrow> (None, c\<lparr>crc_reg := r\<rparr>))"

definition Residue :: "'a::len crc \<Rightarrow> 'a word \<times> 'a crc" where
  "Residue c =
     (if refout (crc_a c) then (crc_reg c, c)
      else (reflect (crc_reg c) (width (crc_a c)), c))"

definition Final :: "'a::len crc \<Rightarrow> 'a word \<times> 'a crc" where
  "Final c = (case Residue c of (r, c') \<Rightarrow> (r XOR xorout (crc_a c'), c'))"

section \<open>One-shot computation\<close>

definition CalcBits :: "'a::len algo \<Rightarrow> byte list \<Rightarrow> int \<Rightarrow> failure + 'a word" where
  "CalcBits a data bitLen =
     (case UpdateBits (NewCRC a) data bitLen of
        (Some f, c) \<Rightarrow> Inl f
      | (None, c) \<Rightarrow> Inr (fst (Final c)))"

definition Calc :: "'a::len algo \<Rightarrow> byte list \<Rightarrow> failure + 'a word" where
  "Calc a data = CalcBits a data (- 1)"

section \<open>Auxiliary facts: reflection\<close>

lemma bit_shift_in:
  fixes x v :: "'a::len word"
  shows "bit (push_bit 1 x OR (v AND 1)) k \<longleftrightarrow>
           (if k = 0 then bit v 0 else k < LENGTH('a) \<and> bit x (k - 1))"
  by (simp only: bit_or_iff bit_push_bit_iff bit_and_iff bit_1_iff)
     (auto dest: bit_imp_le_length)

lemma bit_reflect_loop:
  fixes val x :: "'a::len word"
  shows "bit (reflect_loop n val x) j \<longleftrightarrow>
           j < LENGTH('a) \<and> (if j < n then bit val (n - j) else bit x (j - n))"
proof (induction n arbitrary: val x j)
  case 0
  show ?case by (auto dest: bit_imp_le_length)
next
  case (Suc n)
  show ?case
  proof (cases "j < n")
    case True
    then show ?thesis
      by (simp add: Suc.IH Let_def bit_drop_bit_eq Suc_diff_le)
  next
    case False
    have "bit (reflect_loop (Suc n) val x) j \<longleftrightarrow>
            j < LENGTH('a) \<and> bit (push_bit 1 x OR (drop_bit 1 val AND 1)) (j - n)"
      using False by (simp only: reflect_loop.simps Let_def Suc.IH if_False)
    then have "bit (reflect_loop (Suc n) val x) j \<longleftrightarrow>
            j < LENGTH('a) \<and>
            (if j - n = 0 then bit (drop_bit 1 val) 0 else j - n < LENGTH('a) \<and> bit x (j - n - 1))"
      by (simp only: bit_shift_in)
    with False show ?thesis
      by (cases "j = n") (auto simp add: bit_drop_bit_eq)
  qed
qed

lemma bit_reflect:
  fixes val :: "'a::len word"
  assumes "1 \<le> numBits"
  shows "bit (reflect val numBits) j \<longleftrightarrow>
           j < LENGTH('a) \<and> int j < numBits \<and> bit val (nat numBits - 1 - j)"
  using assms
  apply (simp add: reflect_def bit_reflect_loop bit_and_iff bit_1_iff)
  apply (auto simp: nat_diff_distrib nat_less_iff)
  done

lemma foldl_upd_nth:
  "n \<le> length t \<Longrightarrow> i < length t \<Longrightarrow>
     foldl (\<lambda>t i. t[i := f i]) t [m..<n] ! i = (if m \<le> i \<and> i < n then f i else t ! i)"
proof (induction n)
  case 0 then show ?case by simp
next
  case (Suc n)
  have len: "length (foldl (\<lambda>t i. t[i := f i]) t xs) = length t" for xs
    by (induction xs arbitrary: t) auto
  show ?case
  proof (cases "m \<le> n")
    case True
    with Suc show ?thesis by (auto simp: len nth_list_update)
  next
    case False
    with Suc.prems show ?thesis by auto
  qed
qed

lemma reflectedBytes_nth: "reflectedBytes ! unat b = reflect b 8"
proof -
  have lt: "unat b < 256" using unsigned_less [of b, where ?'a = nat] by simp
  have "reflectedBytes ! unat b = (if 1 \<le> unat b \<and> unat b < 256 then reflect (of_nat (unat b)) 8 else 0)"
    unfolding reflectedBytes_def using lt by (subst foldl_upd_nth) simp_all
  moreover have "reflect (0 :: byte) 8 = 0" by (rule bit_eqI) (simp add: bit_reflect)
  moreover have "unat b = 0 \<longleftrightarrow> b = 0" by (simp add: unat_eq_0)
  ultimately show ?thesis using lt by (cases "b = 0") auto
qed

lemma reflect_zero: "reflect (0 :: 'a::len word) 8 = 0"
  by (rule bit_eqI) (simp add: bit_reflect)

lemma reflect8_involution: "reflect (reflect b 8) 8 = b" for b :: byte
proof (rule bit_eqI)
  fix j
  assume "possible_bit TYPE(byte) j"
  then have "j < 8" by simp
  then have "7 - (7 - j) = j" by simp
  with \<open>j < 8\<close> show "bit (reflect (reflect b 8) 8) j = bit b j"
    by (auto simp add: bit_reflect)
qed

lemma reflect8_and_mask:
  fixes b1 b2 :: byte
  assumes "n \<le> 8" and "drop_bit (8 - n) b1 = drop_bit (8 - n) b2"
  shows "reflect b1 8 AND mask n = reflect b2 8 AND mask n"
proof (rule bit_eqI)
  fix j
  assume "possible_bit TYPE(byte) j"
  show "bit (reflect b1 8 AND mask n) j = bit (reflect b2 8 AND mask n) j"
  proof (cases "j < n")
    case True
    then have idx: "7 - j = (8 - n) + (n - 1 - j)" using assms(1) by simp
    have "bit b (7 - j) = bit (drop_bit (8 - n) b) (n - 1 - j)" for b :: byte
      by (simp only: idx bit_drop_bit_eq comp_def)
    then have "bit b1 (7 - j) = bit b2 (7 - j)" using assms(2) by simp
    then show ?thesis by (simp add: bit_and_iff bit_reflect bit_mask_iff)
  next
    case False
    then show ?thesis by (simp add: bit_and_iff bit_mask_iff)
  qed
qed

lemma reflect_loop_numeral:
  "reflect_loop (numeral n) val x =
     reflect_loop (pred_numeral n) (drop_bit 1 val) (push_bit 1 x OR (drop_bit 1 val AND 1))"
  by (simp add: numeral_eq_Suc Let_def)

section \<open>Auxiliary facts: the shift register is linear over XOR\<close>

lemma shift_step_xor:
  fixes x y p :: "'a::len word"
  shows "(if (x XOR y) AND 1 \<noteq> 0 then drop_bit 1 (x XOR y) XOR p else drop_bit 1 (x XOR y)) =
         (if x AND 1 \<noteq> 0 then drop_bit 1 x XOR p else drop_bit 1 x) XOR
         (if y AND 1 \<noteq> 0 then drop_bit 1 y XOR p else drop_bit 1 y)"
proof -
  have d: "drop_bit 1 (x XOR y) = drop_bit 1 x XOR drop_bit 1 y"
    by (rule bit_eqI) (simp add: bit_drop_bit_eq bit_xor_iff)
  have o: "z AND 1 \<noteq> 0 \<longleftrightarrow> odd z" for z :: "'a word"
    by (simp add: and_one_eq mod_2_eq_odd)
  have e: "odd (x XOR y) \<longleftrightarrow> odd x \<noteq> odd y"
    by (simp add: even_xor_iff)
  show ?thesis
    unfolding o d e
    by (cases "odd x"; cases "odd y"; simp; rule bit_eqI; auto simp: bit_xor_iff)
qed

lemma bbbLoop_xor:
  "bbbLoop p n (x XOR y) = bbbLoop p n x XOR bbbLoop p n y"
proof (induction n arbitrary: x y)
  case 0 show ?case by simp
next
  case (Suc n)
  show ?case
    by (simp only: bbbLoop.simps shift_step_xor Suc.IH)
qed

lemma bbbLoop_low_zero:
  "take_bit n y = 0 \<Longrightarrow> bbbLoop p n y = drop_bit n y"
proof (induction n arbitrary: y)
  case 0 show ?case by simp
next
  case (Suc n)
  have "bit (take_bit (Suc n) y) 0 = False" using Suc.prems by simp
  then have "even y" by (simp add: bit_take_bit_iff bit_0)
  then have ev: "y AND 1 = 0"
    by (simp add: and_one_eq mod_2_eq_odd)
  have tl: "take_bit n (drop_bit 1 y) = 0"
  proof (rule bit_eqI)
    fix j 
    have "bit (take_bit (Suc n) y) (Suc j) = False" using Suc.prems by simp
    then show "bit (take_bit n (drop_bit 1 y)) j = bit (0 :: 'a word) j"
      by (simp add: bit_take_bit_iff bit_drop_bit_eq)
  qed
  have "bbbLoop p (Suc n) y = bbbLoop p n (drop_bit 1 y)"
    using ev by simp
  also have "\<dots> = drop_bit n (drop_bit 1 y)" by (rule Suc.IH [OF tl])
  also have "\<dots> = drop_bit (Suc n) y" by (simp add: drop_bit_drop_bit)
  finally show ?case .
qed

lemma bbbLoop_add: "bbbLoop p (m + n) x = bbbLoop p n (bbbLoop p m x)"
  by (induction m arbitrary: x) simp_all

lemma bbbLoop_numeral:
  "bbbLoop p (numeral n) reg =
     bbbLoop p (pred_numeral n) (if reg AND 1 \<noteq> 0 then drop_bit 1 reg XOR p else drop_bit 1 reg)"
  by (simp add: numeral_eq_Suc)

lemma bbbUpd_mask:
  "bbbUpd a reg b n =
     bbbLoop (refPoly a) n (reg XOR ucast ((if refin a then b else reflect b 8) AND mask n))"
proof -
  have "push_bit n (1 :: byte) - 1 = mask n"
    by (simp add: mask_eq_exp_minus_1 push_bit_of_1)
  then show ?thesis
    by (simp only: bbbUpd_def Let_def reflectedBytes_nth) simp
qed

lemma byte_split:
  fixes r p :: "'a::len word" and x :: byte
  assumes len: "8 \<le> LENGTH('a)" and k: "k \<le> 8"
  shows "bbbLoop p 8 (r XOR ucast x) =
         bbbLoop p (8 - k) (bbbLoop p k (r XOR ucast (x AND mask k)) XOR ucast (drop_bit k x))"
proof -
  let ?hi = "ucast (push_bit k (drop_bit k x)) :: 'a word"
  have split: "r XOR ucast x = (r XOR ucast (x AND mask k)) XOR ?hi"
    by (rule bit_eqI)
       (auto simp add: bit_xor_iff bit_ucast_iff bit_and_iff bit_mask_iff bit_push_bit_iff
             bit_drop_bit_eq dest: bit_imp_le_length)
  have "take_bit k ?hi = 0"
    by (rule bit_eqI) (simp add: bit_take_bit_iff bit_ucast_iff bit_push_bit_iff)
  then have "bbbLoop p k ?hi = drop_bit k ?hi" by (rule bbbLoop_low_zero)
  also have "\<dots> = ucast (drop_bit k x)"
    using len
    by (intro bit_eqI)
       (auto simp add: bit_ucast_iff bit_push_bit_iff bit_drop_bit_eq dest: bit_imp_le_length)
  finally have hi: "bbbLoop p k ?hi = ucast (drop_bit k x)" .
  have "bbbLoop p 8 (r XOR ucast x) = bbbLoop p (k + (8 - k)) (r XOR ucast x)"
    using k by simp
  also have "\<dots> = bbbLoop p (8 - k) (bbbLoop p k (r XOR ucast x))"
    by (rule bbbLoop_add)
  also have "bbbLoop p k (r XOR ucast x) =
               bbbLoop p k (r XOR ucast (x AND mask k)) XOR ucast (drop_bit k x)"
    by (simp only: split bbbLoop_xor hi)
  finally show ?thesis .
qed

lemma rest_byte_bits:
  fixes b :: byte
  assumes "k \<le> 8"
  shows "(if ri then drop_bit k b else reflect (push_bit k b) 8) AND mask (8 - k) =
         drop_bit k (if ri then b else reflect b 8)"
proof (cases ri)
  case True
  have "drop_bit k b AND mask (8 - k) = drop_bit k b"
    by (rule bit_eqI)
       (auto simp add: bit_and_iff bit_mask_iff bit_drop_bit_eq dest: bit_imp_le_length)
  with True show ?thesis by simp
next
  case False
  have "reflect (push_bit k b) 8 AND mask (8 - k) = drop_bit k (reflect b 8)"
  proof (rule bit_eqI)
    fix j
    assume "possible_bit TYPE(byte) j"
    then have j: "j < 8" by simp
    show "bit (reflect (push_bit k b) 8 AND mask (8 - k)) j = bit (drop_bit k (reflect b 8)) j"
    proof (cases "j + k < 8")
      case True
      then have "7 - j - k = 7 - (k + j)" and "k \<le> 7 - j" by simp_all
      with True j show ?thesis
        by (auto simp add: bit_and_iff bit_mask_iff bit_drop_bit_eq bit_reflect bit_push_bit_iff)
    next
      case False
      with j show ?thesis
        by (simp add: bit_and_iff bit_mask_iff bit_drop_bit_eq bit_reflect bit_push_bit_iff)
    qed
  qed
  with False show ?thesis by simp
qed

lemma split_register:
  fixes a :: "'a::len algo"
  assumes len: "8 \<le> LENGTH('a)" and k: "1 \<le> k" "k \<le> 7"
  shows "bbbUpd a (bbbUpd a r b k) (if refin a then drop_bit k b else push_bit k b) (8 - k) =
         bbbLoop (refPoly a) 8 (r XOR ucast (if refin a then b else reflect b 8))"
proof -
  have k8: "k \<le> 8" using k by simp
  have rest: "(if refin a then (if refin a then drop_bit k b else push_bit k b)
               else reflect (if refin a then drop_bit k b else push_bit k b) 8) AND mask (8 - k)
              = drop_bit k (if refin a then b else reflect b 8)"
    using rest_byte_bits [OF k8, of "refin a" b] by (cases "refin a") simp_all
  show ?thesis
    by (simp only: bbbUpd_mask rest byte_split [OF len k8, of "refPoly a" r])
qed

section \<open>Auxiliary facts: the table built by NewAlgo\<close>

lemma bbbUpd_table_upd: "bbbUpd (a\<lparr>table := t\<rparr>) = bbbUpd a"
  by (simp add: fun_eq_iff bbbUpd_def)

lemma bbbUpd_zero_byte: "bbbUpd a r 0 8 = bbbLoop (refPoly a) 8 r"
proof -
  have "reflectedBytes ! unat (0 :: byte) = 0"
    by (simp only: reflectedBytes_nth reflect_zero)
  then show ?thesis by (simp add: bbbUpd_def)
qed

lemma foldl_setEntry:
  "foldl setEntry a xs =
     a\<lparr>table := foldl (\<lambda>t i. t[i := bbbLoop (refPoly a) 8 (of_nat i)]) (table a) xs\<rparr>"
proof (induction xs arbitrary: a)
  case Nil show ?case by simp
next
  case (Cons x xs)
  have step: "setEntry a x = a\<lparr>table := (table a)[x := bbbLoop (refPoly a) 8 (of_nat x)]\<rparr>"
    by (simp add: setEntry_def bbbUpd_zero_byte)
  have "foldl setEntry a (x # xs) = foldl setEntry (setEntry a x) xs" by simp
  also have "\<dots> = (setEntry a x)\<lparr>table :=
      foldl (\<lambda>t i. t[i := bbbLoop (refPoly (setEntry a x)) 8 (of_nat i)]) (table (setEntry a x)) xs\<rparr>"
    by (rule Cons.IH)
  also have "\<dots> = a\<lparr>table :=
      foldl (\<lambda>t i. t[i := bbbLoop (refPoly a) 8 (of_nat i)]) (table a) (x # xs)\<rparr>"
    by (simp add: step)
  finally show ?case .
qed

lemma newTable_fields:
  "width (newTable w poly ini xo ri ro) = w"
  "refPoly (newTable w poly ini xo ri ro) = reflect poly w"
  "refInit (newTable w poly ini xo ri ro) = reflect ini w"
  "xorout (newTable w poly ini xo ri ro) = xo"
  "refin (newTable w poly ini xo ri ro) = ri"
  "refout (newTable w poly ini xo ri ro) = ro"
  by (simp_all add: newTable_def foldl_setEntry)

lemma newTable_table:
  assumes "i < 256"
  shows "table (newTable w poly ini xo ri ro) ! i = bbbLoop (reflect poly w) 8 (of_nat i)"
proof -
  have z: "bbbLoop p 8 (0 :: 'a word) = 0" for p
    by (simp add: eval_nat_numeral)
  have "table (newTable w poly ini xo ri ro) ! i =
          (if 1 \<le> i \<and> i < 256 then bbbLoop (reflect poly w) 8 (of_nat i) else replicate 256 0 ! i)"
    using assms by (simp add: newTable_def foldl_setEntry foldl_upd_nth)
  with assms z show ?thesis by (cases "i = 0") auto
qed

lemma NewAlgo_Inr:
  "NewAlgo w poly ini xo ri ro = Inr a \<Longrightarrow> a = newTable w poly ini xo ri ro"
  by (simp add: NewAlgo_def split: option.splits)

lemma ucast_byte_of_nat:
  assumes "8 \<le> LENGTH('a::len)" and "i < 256"
  shows "(ucast (of_nat i :: byte) :: 'a word) = of_nat i"
proof -
  have "unat (of_nat i :: byte) = i" using assms(2) by (intro of_nat_inverse) simp_all
  then have "(of_nat (unat (of_nat i :: byte)) :: 'a word) = of_nat i" by simp
  then show ?thesis by simp
qed

lemma tbl_step_eq:
  fixes reg p :: "'a::len word" and b1 :: byte
  assumes len: "8 \<le> LENGTH('a)"
  shows "bbbLoop p 8 (of_nat (unat ((ucast reg :: byte) XOR b1))) XOR drop_bit 8 reg =
         bbbLoop p 8 (reg XOR ucast b1)"
proof -
  let ?lo = "ucast ((ucast reg :: byte) XOR b1) :: 'a word"
  let ?hi = "push_bit 8 (drop_bit 8 reg) :: 'a word"
  have split: "reg XOR ucast b1 = ?lo XOR ?hi"
    using len
    by (intro bit_eqI)
       (auto simp add: bit_xor_iff bit_ucast_iff bit_push_bit_iff bit_drop_bit_eq
             dest: bit_imp_le_length)
  have "take_bit 8 ?hi = 0"
    by (intro bit_eqI) (simp add: bit_take_bit_iff bit_push_bit_iff)
  then have hi: "bbbLoop p 8 ?hi = drop_bit 8 ?hi" by (rule bbbLoop_low_zero)
  have hi2: "drop_bit 8 ?hi = drop_bit 8 reg"
    by (intro bit_eqI)
       (auto simp add: bit_push_bit_iff bit_drop_bit_eq dest: bit_imp_le_length)
  have "of_nat (unat ((ucast reg :: byte) XOR b1)) = ?lo" by simp
  then show ?thesis
    by (simp only: split bbbLoop_xor hi hi2)
qed

lemma tblLoop_newTable:
  fixes reg :: "'a::len word"
  assumes "8 \<le> LENGTH('a)"
  shows "tblLoop (newTable w poly ini xo ri ro) reg bs =
           foldl (\<lambda>r b. bbbLoop (reflect poly w) 8 (r XOR ucast (if ri then b else reflect b 8)))
             reg bs"
proof -
  have step: "table (newTable w poly ini xo ri ro) ! unat ((ucast r :: byte) XOR b1) XOR drop_bit 8 r
          = bbbLoop (reflect poly w) 8 (r XOR ucast b1)" for r :: "'a word" and b1 :: byte
  proof -
    have lt: "unat ((ucast r :: byte) XOR b1) < 256"
      using unsigned_less [of "(ucast r :: byte) XOR b1", where ?'a = nat] by simp
    show ?thesis
      by (simp only: newTable_table [OF lt] tbl_step_eq [OF assms])
  qed
  show ?thesis
  proof (induction bs arbitrary: reg)
    case Nil
    show ?case by simp
  next
    case (Cons b bs)
    let ?a = "newTable w poly ini xo ri ro"
    let ?b1 = "if ri then b else reflect b 8"
    have b1: "(if \<not> refin ?a then reflectedBytes ! unat b else b) = ?b1"
      by (simp add: newTable_fields reflectedBytes_nth)
    have "tblLoop ?a reg (b # bs) =
            tblLoop ?a (table ?a ! unat ((ucast reg :: byte) XOR ?b1) XOR drop_bit 8 reg) bs"
      by (simp only: tblLoop.simps Let_def b1)
    also have "\<dots> = tblLoop ?a (bbbLoop (reflect poly w) 8 (reg XOR ucast ?b1)) bs"
      by (simp only: step)
    finally show ?case
      by (simp only: Cons.IH foldl_Cons)
  qed
qed

lemma tblLoop_valid:
  fixes a :: "'a::len algo"
  assumes len: "8 \<le> LENGTH('a)" and eng: "NewAlgo w poly ini xo ri ro = Inr a"
  shows "tblLoop a reg bs =
           foldl (\<lambda>r b. bbbLoop (refPoly a) 8 (r XOR ucast (if refin a then b else reflect b 8)))
             reg bs"
proof -
  have a: "a = newTable w poly ini xo ri ro" using eng by (rule NewAlgo_Inr)
  show ?thesis
    unfolding a by (simp only: tblLoop_newTable [OF len] newTable_fields)
qed

lemma tblLoop_append: "tblLoop a reg (xs @ ys) = tblLoop a (tblLoop a reg xs) ys"
  by (induction xs arbitrary: reg) (simp_all add: Let_def)

section \<open>Auxiliary facts: bit lengths, parameter checks, session steps\<close>

lemma and_7_eq_mod: "(x :: int) AND 7 = x mod 8"
proof -
  have "(7 :: int) = mask 3" by (simp add: mask_eq_exp_minus_1)
  then have "x AND 7 = take_bit 3 x" by (simp only: take_bit_eq_mask)
  then show ?thesis by (simp add: take_bit_eq_mod)
qed

lemma tblUpd_whole: "tblUpd a reg data (- 1) = Inr (tblLoop a reg data)"
  by (simp add: tblUpd_def tblRun_def)

lemma tblUpd_aligned: "tblUpd a reg data (8 * int (length data)) = Inr (tblLoop a reg data)"
proof -
  have "drop_bit 3 (8 * int (length data)) = int (length data)"
    by (simp add: drop_bit_eq_div)
  moreover have "(8 * int (length data)) AND 7 = 0"
    by (simp add: and_7_eq_mod)
  ultimately show ?thesis
    by (simp add: tblUpd_def tblRun_def push_bit_eq_mult)
qed

lemma tblUpd_too_long:
  "bitLen > 8 * int (length data) \<Longrightarrow>
   tblUpd a reg data bitLen =
     Inl (Panic ''bitLen is greater than the number of bits in the input data'')"
  by (simp add: tblUpd_def push_bit_eq_mult)

lemma tblUpd_partial:
  assumes "1 \<le> k" and "k \<le> 7"
  shows "tblUpd a reg (pre @ [b]) (8 * int (length pre) + int k) =
           Inr (bbbUpd a (tblLoop a reg pre) b k)"
proof -
  let ?n = "8 * int (length pre) + int k"
  have d: "nat (drop_bit 3 ?n) = length pre"
    using assms by (simp add: drop_bit_eq_div)
  have m: "nat (?n AND 7) = k"
    using assms by (simp add: and_7_eq_mod)
  have p: "\<not> ?n > push_bit 3 (int (length (pre @ [b])))"
    using assms by (simp add: push_bit_eq_mult)
  have "tblUpd a reg (pre @ [b]) ?n = tblRun a reg (pre @ [b]) (length pre) k"
    using p by (simp only: tblUpd_def d m) simp
  also have "\<dots> = Inr (bbbUpd a (tblLoop a reg pre) b k)"
    using assms by (simp add: tblRun_def)
  finally show ?thesis .
qed

lemma tblUpd_no_Err: "tblUpd a reg data bitLen \<noteq> Inl (Err msg)"
  by (simp add: tblUpd_def tblRun_def Let_def)

lemma push_bit_1_eq_0: "push_bit n (1 :: 'a::len word) = 0 \<longleftrightarrow> LENGTH('a) \<le> n"
  by (simp add: push_bit_of_1 exp_eq_zero_iff)

lemma gt_mask_iff:
  fixes x :: "'a::len word"
  assumes "n \<le> LENGTH('a)"
  shows "x > push_bit n 1 - 1 \<longleftrightarrow> uint x > 2 ^ n - 1"
proof -
  have "push_bit n (1 :: 'a word) - 1 = mask n" by (simp add: mask_eq_exp_minus_1 push_bit_of_1)
  moreover have "uint (mask n :: 'a word) = mask n"
    using assms by (simp add: uint_mask_eq min_def)
  moreover have "(mask n :: int) = 2 ^ n - 1" by (simp add: mask_eq_exp_minus_1)
  ultimately show ?thesis by (simp add: word_less_def)
qed

lemma gt_exp_minus_1_iff:
  fixes x :: "'a::len word"
  assumes "n \<le> LENGTH('a)"
  shows "2 ^ n - 1 < x \<longleftrightarrow> 2 ^ n - 1 < uint x"
  using gt_mask_iff [OF assms, of x] by (simp add: push_bit_of_1)

lemma checkParams_None_iff:
  fixes poly ini xo :: "'a::len word"
  shows "checkParams w poly ini xo = None \<longleftrightarrow>
           \<not> (w \<le> 0 \<or> w > int LENGTH('a) \<or> uint poly > 2 ^ nat w - 1
              \<or> uint ini > 2 ^ nat w - 1 \<or> uint xo > 2 ^ nat w - 1)"
proof (cases "w \<le> 0 \<or> w > int LENGTH('a)")
  case True
  then have "w \<le> 0 \<or> push_bit (nat (w - 1)) (1 :: 'a word) = 0"
    by (auto simp add: push_bit_1_eq_0)
  with True show ?thesis by (auto simp add: checkParams_def)
next
  case False
  then have "\<not> (w \<le> 0 \<or> push_bit (nat (w - 1)) (1 :: 'a word) = 0)"
    by (auto simp add: push_bit_1_eq_0)
  moreover from False have "nat w \<le> LENGTH('a)" by linarith
  ultimately show ?thesis using False
    by (simp add: checkParams_def Let_def gt_exp_minus_1_iff)
qed

lemma checkParams_Some:
  "checkParams w poly ini xo = Some f \<Longrightarrow> \<exists>msg. f = Err msg"
  by (auto simp add: checkParams_def Let_def split: if_splits)

lemma Update_eq:
  "Update c data = (None, c\<lparr>crc_reg := tblLoop (crc_a c) (crc_reg c) data\<rparr>)"
  by (simp add: Update_def tblUpd_whole)

lemma UpdateBits_partial:
  assumes "1 \<le> k" and "k \<le> 7"
  shows "UpdateBits c (pre @ [b]) (8 * int (length pre) + int k) =
           (None, c\<lparr>crc_reg := bbbUpd (crc_a c) (tblLoop (crc_a c) (crc_reg c) pre) b k\<rparr>)"
  by (simp add: UpdateBits_def tblUpd_partial [OF assms])

lemma UpdateBits_single:
  assumes "1 \<le> k" and "k \<le> 7"
  shows "UpdateBits c [b] (8 - int k) =
           (None, c\<lparr>crc_reg := bbbUpd (crc_a c) (crc_reg c) b (8 - k)\<rparr>)"
proof -
  have "1 \<le> 8 - k" and "8 - k \<le> 7" and "8 * int (length ([] :: byte list)) + int (8 - k) = 8 - int k"
    using assms by simp_all
  with UpdateBits_partial [of "8 - k" c "[]" b] show ?thesis by simp
qed

lemma split_session:
  fixes c :: "'a::len crc"
  assumes len: "8 \<le> LENGTH('a)"
    and eng: "NewAlgo w poly ini xo ri ro = Inr (crc_a c)"
    and k: "1 \<le> k" "k \<le> 7"
  shows "snd (Update (snd (UpdateBits (snd (UpdateBits c (pre @ [b]) (8 * int (length pre) + int k)))
            [if refin (crc_a c) then drop_bit k b else push_bit k b] (8 - int k))) rest)
         = snd (Update c (pre @ b # rest))"
proof -
  let ?a = "crc_a c"
  have one: "tblLoop ?a r [b] = bbbLoop (refPoly ?a) 8 (r XOR ucast (if refin ?a then b else reflect b 8))"
    for r
    by (simp only: tblLoop_valid [OF len eng] foldl_Cons foldl_Nil)
  have "tblLoop ?a (crc_reg c) (pre @ b # rest) =
          tblLoop ?a (tblLoop ?a (tblLoop ?a (crc_reg c) pre) [b]) rest"
    using tblLoop_append [of ?a "crc_reg c" "pre @ [b]" rest]
    by (simp add: tblLoop_append)
  also have "\<dots> = tblLoop ?a
      (bbbUpd ?a (bbbUpd ?a (tblLoop ?a (crc_reg c) pre) b k)
         (if refin ?a then drop_bit k b else push_bit k b) (8 - k)) rest"
    by (simp only: one split_register [OF len k])
  finally show ?thesis
    by (simp add: UpdateBits_partial [OF k] UpdateBits_single [OF k] Update_eq)
qed

section \<open>Auxiliary facts: three concrete engines\<close>

text \<open>
  CRC-5/USB (5, 0x05, 0x1f, 0x1f, reflected in and out), CRC-8/SMBUS (8, 0x07, 0, 0, not
  reflected) and the reflected engine with the parameters (8, 0x07, 0, 0). The bytes
  \<open>0x31 .. 0x39\<close> are the ASCII string \<open>123456789\<close>.
\<close>

lemma usb5:
  "NewAlgo 5 (0x05 :: 8 word) 0x1f 0x1f True True = Inr (newTable 5 0x05 0x1f 0x1f True True)"
  by (simp add: NewAlgo_def checkParams_def)

lemma NewAlgo_smbus:
  "NewAlgo 8 (0x07 :: 8 word) 0 0 False False = Inr (newTable 8 0x07 0 0 False False)"
  by (simp add: NewAlgo_def checkParams_def)

lemma NewAlgo_crc8_reflected:
  "NewAlgo 8 (0x07 :: 8 word) 0 0 True True = Inr (newTable 8 0x07 0 0 True True)"
  by (simp add: NewAlgo_def checkParams_def)

lemma usb5_check:
  "tblLoop (newTable 5 (0x05 :: 8 word) 0x1f 0x1f True True) (reflect 0x1f 5)
     [0x31, 0x32, 0x33, 0x34, 0x35, 0x36, 0x37, 0x38, 0x39] XOR 0x1f = 0x19"
proof -
  have r: "reflect (0x05 :: 8 word) 5 = 0x14" "reflect (0x1f :: 8 word) 5 = 0x1f"
    by (simp_all add: reflect_def reflect_loop_numeral)
  have l: "8 \<le> LENGTH(8)" by simp
  show ?thesis
    by (simp only: tblLoop_newTable [OF l]) (simp add: r bbbLoop_numeral)
qed

lemma usb5_calc:
  "Calc (newTable 5 (0x05 :: 8 word) 0x1f 0x1f True True)
     [0x31, 0x32, 0x33, 0x34, 0x35, 0x36, 0x37, 0x38, 0x39] = Inr 0x19"
proof -
  let ?u = "newTable 5 (0x05 :: 8 word) 0x1f 0x1f True True"
  have "Calc ?u [0x31, 0x32, 0x33, 0x34, 0x35, 0x36, 0x37, 0x38, 0x39] =
          Inr (tblLoop ?u (reflect 0x1f 5) [0x31, 0x32, 0x33, 0x34, 0x35, 0x36, 0x37, 0x38, 0x39]
               XOR 0x1f)"
    by (simp add: Calc_def CalcBits_def UpdateBits_def tblUpd_whole NewCRC_def Final_def
          Residue_def newTable_fields del: tblLoop.simps)
  then show ?thesis by (simp only: usb5_check)
qed

lemma usb5_session:
  "fst (Final (snd (Update (NewCRC (newTable 5 (0x05 :: 8 word) 0x1f 0x1f True True))
     [0x31, 0x32, 0x33, 0x34, 0x35, 0x36, 0x37, 0x38, 0x39]))) = 0x19"
proof -
  let ?u = "newTable 5 (0x05 :: 8 word) 0x1f 0x1f True True"
  have "fst (Final (snd (Update (NewCRC ?u) [0x31, 0x32, 0x33, 0x34, 0x35, 0x36, 0x37, 0x38, 0x39]))) =
          tblLoop ?u (reflect 0x1f 5) [0x31, 0x32, 0x33, 0x34, 0x35, 0x36, 0x37, 0x38, 0x39]
               XOR 0x1f"
    by (simp add: Update_eq NewCRC_def Final_def Residue_def newTable_fields del: tblLoop.simps)
  then show ?thesis by (simp only: usb5_check)
qed

section \<open>Splitting the input inside a byte\<close>

text \<open>
  C1: let the engine come from \<open>NewAlgo\<close> and the session be in any state. Feeding the
  bytes \<open>pre\<close> and the first \<open>k\<close> bits (1 to 7) of the byte \<open>b\<close> with one \<open>UpdateBits\<close>,
  then the remaining \<open>8 - k\<close> bits of \<open>b\<close> with a second \<open>UpdateBits\<close>, then \<open>rest\<close> with
  \<open>Update\<close>, panics nowhere and gives the same \<open>Final\<close> as one \<open>Update\<close> with
  \<open>pre @ b # rest\<close>. The bits of a partial byte are taken in the engine's input order:
  with \<open>refin\<close> the first \<open>k\<close> bits are the low ones and the remaining bits are supplied as
  \<open>b >> k\<close>; without \<open>refin\<close> the first \<open>k\<close> bits are the high ones and the remaining bits
  are supplied as \<open>b << k\<close>. For CRC-5/USB, \<open>Calc\<close> of \<open>123456789\<close> is \<open>0x19\<close>, and so is
  the result of \<open>UpdateBits("12345", 8*4+2)\<close>, \<open>UpdateBits({0b001101}, 6)\<close>,
  \<open>Update("6789")\<close>. The register type has at least eight bits, as every \<open>UInt\<close> has.
\<close>

theorem bit_split_same_final:
  fixes c :: "'a::len crc"
  assumes "8 \<le> LENGTH('a)"
    and "NewAlgo w poly ini xo ri ro = Inr (crc_a c)"
    and "1 \<le> k" and "k \<le> 7"
  shows "(let (f1, c1) = UpdateBits c (pre @ [b]) (8 * int (length pre) + int k);
              (f2, c2) = UpdateBits c1 [if refin (crc_a c) then drop_bit k b else push_bit k b]
                           (8 - int k);
              (f3, c3) = Update c2 rest
          in f1 = None \<and> f2 = None \<and> f3 = None
             \<and> fst (Final c3) = fst (Final (snd (Update c (pre @ b # rest)))))
         \<and> (\<exists>u. NewAlgo 5 (0x05 :: 8 word) 0x1f 0x1f True True = Inr u
              \<and> Calc u [0x31, 0x32, 0x33, 0x34, 0x35, 0x36, 0x37, 0x38, 0x39] = Inr 0x19
              \<and> (let (f1, c1) = UpdateBits (NewCRC u) [0x31, 0x32, 0x33, 0x34, 0x35] (8 * 4 + 2);
                      (f2, c2) = UpdateBits c1 [0x0d] 6;
                      (f3, c3) = Update c2 [0x36, 0x37, 0x38, 0x39]
                  in f1 = None \<and> f2 = None \<and> f3 = None \<and> fst (Final c3) = 0x19))"
proof -
  have general:
    "(let (f1, c1) = UpdateBits s (pre @ [b]) (8 * int (length pre) + int j);
          (f2, c2) = UpdateBits c1 [if refin (crc_a s) then drop_bit j b else push_bit j b]
                       (8 - int j);
          (f3, c3) = Update c2 rest
      in f1 = None \<and> f2 = None \<and> f3 = None
         \<and> fst (Final c3) = fst (Final (snd (Update s (pre @ b # rest)))))"
    if len: "8 \<le> LENGTH('b)" and eng: "NewAlgo w' poly' ini' xo' ri' ro' = Inr (crc_a s)"
      and j: "1 \<le> j" "j \<le> 7"
    for s :: "'b::len crc" and w' poly' ini' xo' ri' ro' j pre b rest
    using split_session [OF len eng j, of pre b rest]
    by (simp add: UpdateBits_partial [OF j] UpdateBits_single [OF j] Update_eq)
  let ?u = "newTable 5 (0x05 :: 8 word) 0x1f 0x1f True True"
  have l8: "8 \<le> LENGTH(8)" by simp
  have eng: "NewAlgo 5 (0x05 :: 8 word) 0x1f 0x1f True True = Inr (crc_a (NewCRC ?u))"
    by (simp add: usb5 NewCRC_def)
  have ru: "refin (crc_a (NewCRC ?u))" by (simp add: NewCRC_def newTable_fields)
  have d: "drop_bit 2 (0x35 :: byte) = 0x0d" by simp
  have k2: "(1 :: nat) \<le> 2" "(2 :: nat) \<le> 7" by simp_all
  have "(let (f1, c1) = UpdateBits (NewCRC ?u) [0x31, 0x32, 0x33, 0x34, 0x35] (8 * 4 + 2);
             (f2, c2) = UpdateBits c1 [0x0d] 6;
             (f3, c3) = Update c2 [0x36, 0x37, 0x38, 0x39]
         in f1 = None \<and> f2 = None \<and> f3 = None \<and> fst (Final c3) = 0x19)"
    using general [OF l8 eng k2, of "[0x31, 0x32, 0x33, 0x34]" "0x35" "[0x36, 0x37, 0x38, 0x39]"]
    by (simp add: ru d usb5_session del: tblLoop.simps)
  with usb5 usb5_calc have "\<exists>u. NewAlgo 5 (0x05 :: 8 word) 0x1f 0x1f True True = Inr u
              \<and> Calc u [0x31, 0x32, 0x33, 0x34, 0x35, 0x36, 0x37, 0x38, 0x39] = Inr 0x19
              \<and> (let (f1, c1) = UpdateBits (NewCRC u) [0x31, 0x32, 0x33, 0x34, 0x35] (8 * 4 + 2);
                      (f2, c2) = UpdateBits c1 [0x0d] 6;
                      (f3, c3) = Update c2 [0x36, 0x37, 0x38, 0x39]
                  in f1 = None \<and> f2 = None \<and> f3 = None \<and> fst (Final c3) = 0x19)"
    by blast
  with general [OF assms, of pre b rest] show ?thesis by blast
qed

theorem bit_split_same_final_witness:
  "8 \<le> LENGTH(8)
   \<and> NewAlgo 8 (0x07 :: 8 word) 0 0 False False =
       Inr (crc_a (NewCRC (newTable 8 (0x07 :: 8 word) 0 0 False False)))
   \<and> (1 :: nat) \<le> 3 \<and> (3 :: nat) \<le> 7
   \<and> (let (f1, c1) = UpdateBits (NewCRC (newTable 8 (0x07 :: 8 word) 0 0 False False))
                         ([0x31] @ [0x32]) (8 * int (length [0x31 :: byte]) + int 3);
            (f2, c2) = UpdateBits c1
                         [if refin (crc_a (NewCRC (newTable 8 (0x07 :: 8 word) 0 0 False False)))
                          then drop_bit 3 0x32 else push_bit 3 0x32]
                         (8 - int 3);
            (f3, c3) = Update c2 [0x33]
        in f1 = None \<and> f2 = None \<and> f3 = None
           \<and> fst (Final c3) =
               fst (Final (snd (Update (NewCRC (newTable 8 (0x07 :: 8 word) 0 0 False False))
                                  ([0x31] @ 0x32 # [0x33])))))"
proof -
  have l: "8 \<le> LENGTH(8)" by simp
  have e: "NewAlgo 8 (0x07 :: 8 word) 0 0 False False =
             Inr (crc_a (NewCRC (newTable 8 (0x07 :: 8 word) 0 0 False False)))"
    by (simp add: NewAlgo_smbus NewCRC_def)
  have k: "(1 :: nat) \<le> 3" "(3 :: nat) \<le> 7" by simp_all
  from bit_split_same_final [OF l e k, of "[0x31]" "0x32" "[0x33]", THEN conjunct1] l e k
  show ?thesis by blast
qed

section \<open>Chunked updates\<close>

text \<open>
  C2, as stated, compares a session in any state with a fresh one, and fails when the
  first session has already consumed input: after \<open>Update("1")\<close>, the updates
  \<open>Update("2"); Update("3")\<close> end in \<open>0x3c\<close>, while a fresh session fed \<open>"23"\<close> ends in
  \<open>0xb3\<close> (reflected engine with the parameters 8, 0x07, 0, 0).
\<close>

theorem update_on_used_session_counterexample:
  "NewAlgo 8 (0x07 :: 8 word) 0 0 True True = Inr (newTable 8 0x07 0 0 True True)
   \<and> fst (Final (snd (Update (snd (Update
         (snd (Update (NewCRC (newTable 8 (0x07 :: 8 word) 0 0 True True)) [0x31]))
         [0x32])) [0x33]))) = 0x3c
   \<and> fst (Final (snd (Update (NewCRC (newTable 8 (0x07 :: 8 word) 0 0 True True))
         ([0x32] @ [0x33])))) = 0xb3
   \<and> fst (Final (snd (Update (snd (Update
         (snd (Update (NewCRC (newTable 8 (0x07 :: 8 word) 0 0 True True)) [0x31]))
         [0x32])) [0x33])))
     \<noteq> fst (Final (snd (Update (NewCRC (newTable 8 (0x07 :: 8 word) 0 0 True True))
         ([0x32] @ [0x33]))))"
proof -
  let ?u = "newTable 8 (0x07 :: 8 word) 0 0 True True"
  have l: "8 \<le> LENGTH(8)" by simp
  have r: "reflect (0x07 :: 8 word) 8 = 0xe0" "reflect (0 :: 8 word) 8 = 0"
    by (simp_all add: reflect_def reflect_loop_numeral)
  have used: "tblLoop ?u (tblLoop ?u (tblLoop ?u (reflect 0 8) [0x31]) [0x32]) [0x33] = 0x3c"
    by (simp only: tblLoop_newTable [OF l]) (simp add: r bbbLoop_numeral)
  have fresh: "tblLoop ?u (reflect 0 8) ([0x32] @ [0x33]) = 0xb3"
    by (simp only: tblLoop_newTable [OF l]) (simp add: r bbbLoop_numeral)
  have "fst (Final (snd (Update (snd (Update (snd (Update (NewCRC ?u) [0x31])) [0x32])) [0x33]))) =
          tblLoop ?u (tblLoop ?u (tblLoop ?u (reflect 0 8) [0x31]) [0x32]) [0x33]"
    by (simp add: Update_eq NewCRC_def Final_def Residue_def newTable_fields del: tblLoop.simps)
  moreover
  have "fst (Final (snd (Update (NewCRC ?u) ([0x32] @ [0x33])))) =
          tblLoop ?u (reflect 0 8) ([0x32] @ [0x33])"
    by (simp add: Update_eq NewCRC_def Final_def Residue_def newTable_fields
          del: tblLoop.simps append.simps)
  ultimately show ?thesis
    by (simp only: used fresh NewAlgo_crc8_reflected) simp
qed

text \<open>
  C2, amended: from the same starting state (in particular from two fresh sessions of
  the same engine), \<open>Update A; Update B\<close> and \<open>Update (A @ B)\<close> never fail and leave the
  same session, hence the same \<open>Final\<close>.
\<close>

theorem update_concat:
  "fst (Update c A) = None \<and> fst (Update (snd (Update c A)) B) = None
   \<and> fst (Update c (A @ B)) = None
   \<and> snd (Update (snd (Update c A)) B) = snd (Update c (A @ B))
   \<and> fst (Final (snd (Update (snd (Update c A)) B))) = fst (Final (snd (Update c (A @ B))))
   \<and> fst (Final (snd (Update (snd (Update (NewCRC a) A)) B))) =
       fst (Final (snd (Update (NewCRC a) (A @ B))))"
  by (simp add: Update_eq tblLoop_append)

section \<open>The accelerator table\<close>

text \<open>
  C3, as stated, fails for an engine without \<open>refin\<close>: for CRC-8/SMBUS, \<open>table[1]\<close> is
  \<open>0x91\<close> and \<open>bbbUpd(0, 1, 8)\<close> is \<open>0xe0\<close>, because \<open>bbbUpd\<close> reflects the input byte 1 to
  \<open>0x80\<close> first.
\<close>

theorem table_entry_counterexample:
  "NewAlgo 8 (0x07 :: 8 word) 0 0 False False = Inr (newTable 8 0x07 0 0 False False)
   \<and> table (newTable 8 (0x07 :: 8 word) 0 0 False False) ! 1 = 0x91
   \<and> bbbUpd (newTable 8 (0x07 :: 8 word) 0 0 False False) 0 1 8 = 0xe0
   \<and> table (newTable 8 (0x07 :: 8 word) 0 0 False False) ! 1
       \<noteq> bbbUpd (newTable 8 (0x07 :: 8 word) 0 0 False False) 0 1 8"
proof -
  let ?a = "newTable 8 (0x07 :: 8 word) 0 0 False False"
  have r: "reflect (0x07 :: 8 word) 8 = 0xe0" "reflect (1 :: byte) 8 = 0x80"
    by (simp_all add: reflect_def reflect_loop_numeral)
  have "table ?a ! 1 = bbbLoop (reflect 0x07 8) 8 (of_nat 1)"
    by (rule newTable_table) simp
  then have t: "table ?a ! 1 = 0x91"
    by (simp add: r bbbLoop_numeral)
  have "bbbUpd ?a 0 1 8 = bbbLoop (reflect 0x07 8) 8 (0 XOR ucast (reflect (1 :: byte) 8 AND mask 8))"
    by (simp only: bbbUpd_mask newTable_fields if_False)
  then have b: "bbbUpd ?a 0 1 8 = 0xe0"
    by (simp add: r bbbLoop_numeral mask_eq_exp_minus_1)
  show ?thesis
    by (simp only: t b NewAlgo_smbus) simp
qed

text \<open>
  C3, amended: for an engine returned by \<open>NewAlgo\<close>, \<open>table[0] = 0\<close> and for every \<open>i\<close>
  below 256 \<open>table[i]\<close> is \<open>bbbUpd(T(i), 0, 8)\<close>, eight shift steps from the register value
  \<open>i\<close>; this is \<open>bbbUpd(0, i, 8)\<close> when \<open>refin\<close> holds and \<open>bbbUpd(0, reflect(i, 8), 8)\<close>
  when it does not.
\<close>

theorem table_entries:
  fixes a :: "'a::len algo"
  assumes "8 \<le> LENGTH('a)" and "NewAlgo w poly ini xo ri ro = Inr a"
  shows "table a ! 0 = 0
         \<and> (\<forall>i<256. table a ! i = bbbUpd a (of_nat i) 0 8
                   \<and> table a ! i = bbbUpd a 0 (if refin a then of_nat i else reflect (of_nat i) 8) 8)"
proof -
  have a: "a = newTable w poly ini xo ri ro" using assms(2) by (rule NewAlgo_Inr)
  have tab: "table a ! i = bbbLoop (refPoly a) 8 (of_nat i)" if "i < 256" for i
    using that by (simp add: a newTable_table newTable_fields)
  have zero: "table a ! 0 = 0"
    using tab [of 0] by (simp add: eval_nat_numeral)
  have m8: "x AND mask 8 = x" for x :: byte
    by (rule bit_eqI) (auto simp add: bit_and_iff bit_mask_iff dest: bit_imp_le_length)
  have byte: "bbbUpd a 0 (if refin a then of_nat i else reflect (of_nat i) 8) 8 =
              bbbLoop (refPoly a) 8 (of_nat i)" if "i < 256" for i
    using ucast_byte_of_nat [OF assms(1) that]
    by (simp add: bbbUpd_mask reflect8_involution m8)
  show ?thesis
    using zero tab byte by (simp add: bbbUpd_zero_byte)
qed

theorem table_entries_witness:
  "8 \<le> LENGTH(8)
   \<and> NewAlgo 8 (0x07 :: 8 word) 0 0 False False = Inr (newTable 8 0x07 0 0 False False)
   \<and> table (newTable 8 (0x07 :: 8 word) 0 0 False False) ! 0 = 0
   \<and> table (newTable 8 (0x07 :: 8 word) 0 0 False False) ! 1 =
       bbbUpd (newTable 8 (0x07 :: 8 word) 0 0 False False) (of_nat 1) 0 8
   \<and> table (newTable 8 (0x07 :: 8 word) 0 0 False False) ! 1 =
       bbbUpd (newTable 8 (0x07 :: 8 word) 0 0 False False) 0 (reflect (of_nat 1) 8) 8"
proof -
  have n: "NewAlgo 8 (0x07 :: 8 word) 0 0 False False = Inr (newTable 8 0x07 0 0 False False)"
    by (rule NewAlgo_smbus)
  have l: "8 \<le> LENGTH(8)" by simp
  have r: "\<not> refin (newTable 8 (0x07 :: 8 word) 0 0 False False)"
    by (simp add: newTable_fields)
  from table_entries [OF l n] have
    z: "table (newTable 8 (0x07 :: 8 word) 0 0 False False) ! 0 = 0" and
    e: "\<forall>i<256. table (newTable 8 (0x07 :: 8 word) 0 0 False False) ! i =
           bbbUpd (newTable 8 (0x07 :: 8 word) 0 0 False False) (of_nat i) 0 8
         \<and> table (newTable 8 (0x07 :: 8 word) 0 0 False False) ! i =
           bbbUpd (newTable 8 (0x07 :: 8 word) 0 0 False False) 0
             (if refin (newTable 8 (0x07 :: 8 word) 0 0 False False) then of_nat i
              else reflect (of_nat i) 8) 8"
    by blast+
  from e [THEN spec, of 1] r n l z show ?thesis by auto
qed

section \<open>Unused bits of a partial byte\<close>

text \<open>
  C4, as stated, fails for an engine without \<open>refin\<close>: the bytes \<open>0x00\<close> and \<open>0x80\<close> agree
  on their lowest bit, and \<open>bbbUpd\<close> with \<open>bitLen = 1\<close> from register 0 gives 0 for the
  first and \<open>0xe0\<close> for the second (CRC-8/SMBUS).
\<close>

theorem bbbUpd_low_bits_counterexample:
  "NewAlgo 8 (0x07 :: 8 word) 0 0 False False = Inr (newTable 8 0x07 0 0 False False)
   \<and> take_bit 1 (0x00 :: byte) = take_bit 1 (0x80 :: byte)
   \<and> bbbUpd (newTable 8 (0x07 :: 8 word) 0 0 False False) 0 0x00 1 = 0
   \<and> bbbUpd (newTable 8 (0x07 :: 8 word) 0 0 False False) 0 0x80 1 = 0xe0
   \<and> bbbUpd (newTable 8 (0x07 :: 8 word) 0 0 False False) 0 0x00 1
       \<noteq> bbbUpd (newTable 8 (0x07 :: 8 word) 0 0 False False) 0 0x80 1"
proof -
  let ?a = "newTable 8 (0x07 :: 8 word) 0 0 False False"
  have r: "reflect (0x07 :: 8 word) 8 = 0xe0" "reflect (0x80 :: byte) 8 = 1"
    "reflect (0 :: byte) 8 = 0"
    by (simp_all add: reflect_def reflect_loop_numeral)
  have "bbbUpd ?a 0 0x00 1 = bbbLoop (reflect 0x07 8) 1 (0 XOR ucast (reflect (0x00 :: byte) 8 AND mask 1))"
    by (simp only: bbbUpd_mask newTable_fields if_False)
  then have z: "bbbUpd ?a 0 0x00 1 = 0"
    by (simp add: r)
  have "bbbUpd ?a 0 0x80 1 = bbbLoop (reflect 0x07 8) 1 (0 XOR ucast (reflect (0x80 :: byte) 8 AND mask 1))"
    by (simp only: bbbUpd_mask newTable_fields if_False)
  then have e: "bbbUpd ?a 0 0x80 1 = 0xe0"
    by (simp add: r)
  have t: "take_bit 1 (0x00 :: byte) = take_bit 1 (0x80 :: byte)"
    by simp
  show ?thesis
    by (simp only: z e t NewAlgo_smbus) simp
qed

text \<open>
  C4, amended: for \<open>bitCount\<close> from 1 to 8, with \<open>refin\<close> two bytes that agree on their
  low \<open>bitCount\<close> bits give the same \<open>bbbUpd\<close>; without \<open>refin\<close> two bytes that agree on
  their high \<open>bitCount\<close> bits do, and the low \<open>8 - bitCount\<close> bits are the unused ones.
\<close>

theorem bbbUpd_ignores_unused_bits:
  assumes "1 \<le> bitCount" and "bitCount \<le> 8"
  shows "(refin a \<longrightarrow> take_bit bitCount b1 = take_bit bitCount b2 \<longrightarrow>
            bbbUpd a reg b1 bitCount = bbbUpd a reg b2 bitCount)
         \<and> (\<not> refin a \<longrightarrow> drop_bit (8 - bitCount) b1 = drop_bit (8 - bitCount) b2 \<longrightarrow>
            bbbUpd a reg b1 bitCount = bbbUpd a reg b2 bitCount)"
proof (intro conjI impI)
  assume "refin a" and "take_bit bitCount b1 = take_bit bitCount b2"
  then show "bbbUpd a reg b1 bitCount = bbbUpd a reg b2 bitCount"
    by (simp add: bbbUpd_mask flip: take_bit_eq_mask)
next
  assume "\<not> refin a" and "drop_bit (8 - bitCount) b1 = drop_bit (8 - bitCount) b2"
  then show "bbbUpd a reg b1 bitCount = bbbUpd a reg b2 bitCount"
    using reflect8_and_mask [OF assms(2), of b1 b2] by (simp add: bbbUpd_mask)
qed

theorem bbbUpd_ignores_unused_bits_witness:
  "(1 :: nat) \<le> 2 \<and> (2 :: nat) \<le> 8
   \<and> refin (newTable 5 (0x05 :: 8 word) 0x1f 0x1f True True)
   \<and> take_bit 2 (0x35 :: byte) = take_bit 2 (0xfd :: byte)
   \<and> bbbUpd (newTable 5 (0x05 :: 8 word) 0x1f 0x1f True True) 0x1f 0x35 2 =
       bbbUpd (newTable 5 (0x05 :: 8 word) 0x1f 0x1f True True) 0x1f 0xfd 2
   \<and> \<not> refin (newTable 8 (0x07 :: 8 word) 0 0 False False)
   \<and> drop_bit (8 - 3) (0xe0 :: byte) = drop_bit (8 - 3) (0xff :: byte)
   \<and> bbbUpd (newTable 8 (0x07 :: 8 word) 0 0 False False) 0 0xe0 3 =
       bbbUpd (newTable 8 (0x07 :: 8 word) 0 0 False False) 0 0xff 3"
proof -
  have t: "take_bit 2 (0x35 :: byte) = take_bit 2 (0xfd :: byte)" by code_simp
  have d: "drop_bit (8 - 3) (0xe0 :: byte) = drop_bit (8 - 3) (0xff :: byte)" by code_simp
  have r1: "refin (newTable 5 (0x05 :: 8 word) 0x1f 0x1f True True)"
    and r2: "\<not> refin (newTable 8 (0x07 :: 8 word) 0 0 False False)"
    by (simp_all add: newTable_fields)
  from bbbUpd_ignores_unused_bits
         [of 2 "newTable 5 (0x05 :: 8 word) 0x1f 0x1f True True" "0x35" "0xfd" "0x1f"]
       bbbUpd_ignores_unused_bits
         [of 3 "newTable 8 (0x07 :: 8 word) 0 0 False False" "0xe0" "0xff" 0]
       t d r1 r2
  show ?thesis by simp
qed

section \<open>Construction errors\<close>

text \<open>
  C5: \<open>NewAlgo\<close> returns an error value (never a panic) exactly when the width is not
  positive, or exceeds the bit width of the register type, or one of \<open>poly\<close>, \<open>init\<close>,
  \<open>xorout\<close> exceeds \<open>2 ^ width - 1\<close>; otherwise it returns an engine. No update and no
  one-shot computation ever fails with an error value (\<open>Final\<close> and \<open>Residue\<close> cannot fail
  at all).
\<close>

theorem NewAlgo_invalid_parameter_iff:
  fixes poly ini xo :: "'a::len word"
  shows "((\<exists>msg. NewAlgo w poly ini xo ri ro = Inl (Err msg)) \<longleftrightarrow>
            (w \<le> 0 \<or> w > int LENGTH('a) \<or> uint poly > 2 ^ nat w - 1
              \<or> uint ini > 2 ^ nat w - 1 \<or> uint xo > 2 ^ nat w - 1))
         \<and> ((\<exists>a. NewAlgo w poly ini xo ri ro = Inr a) \<longleftrightarrow>
            \<not> (w \<le> 0 \<or> w > int LENGTH('a) \<or> uint poly > 2 ^ nat w - 1
              \<or> uint ini > 2 ^ nat w - 1 \<or> uint xo > 2 ^ nat w - 1))
         \<and> NewAlgo w poly ini xo ri ro \<noteq> Inl (Panic msg)
         \<and> fst (Update c data) \<noteq> Some (Err msg)
         \<and> fst (UpdateBits c data bitLen) \<noteq> Some (Err msg)
         \<and> CalcBits a data bitLen \<noteq> Inl (Err msg)
         \<and> Calc a data \<noteq> Inl (Err msg)"
proof -
  let ?bad = "w \<le> 0 \<or> w > int LENGTH('a) \<or> uint poly > 2 ^ nat w - 1
              \<or> uint ini > 2 ^ nat w - 1 \<or> uint xo > 2 ^ nat w - 1"
  have ok: "(\<exists>a. NewAlgo w poly ini xo ri ro = Inr a) \<longleftrightarrow> \<not> ?bad"
    using checkParams_None_iff [of w poly ini xo]
    by (auto simp add: NewAlgo_def split: option.splits)
  have err: "(\<exists>msg. NewAlgo w poly ini xo ri ro = Inl (Err msg)) \<longleftrightarrow> ?bad"
    using checkParams_None_iff [of w poly ini xo] checkParams_Some [of w poly ini xo]
    by (auto simp add: NewAlgo_def split: option.splits)
  have np: "NewAlgo w poly ini xo ri ro \<noteq> Inl (Panic msg)"
    using checkParams_Some [of w poly ini xo]
    by (auto simp add: NewAlgo_def split: option.splits)
  have u: "fst (UpdateBits c' data n) \<noteq> Some (Err msg)" for c' :: "'z::len crc" and n
    using tblUpd_no_Err [of "crc_a c'" "crc_reg c'" data n msg]
    by (auto simp add: UpdateBits_def split: sum.splits)
  have u1: "fst (Update c data) \<noteq> Some (Err msg)"
    using tblUpd_no_Err [of "crc_a c" "crc_reg c" data "- 1" msg]
    by (auto simp add: Update_def split: sum.splits)
  have cb: "CalcBits a data n \<noteq> Inl (Err msg)" for n
    using u [of "NewCRC a" n]
    by (auto simp add: CalcBits_def split: prod.splits option.splits)
  show ?thesis
    using ok err np u u1 cb by (simp only: Calc_def) blast
qed

theorem NewAlgo_invalid_parameter_iff_witness:
  "(\<exists>a. NewAlgo 5 (0x05 :: 8 word) 0x1f 0x1f True True = Inr a)
   \<and> (\<exists>msg. NewAlgo 0 (0 :: 8 word) 0 0 True True = Inl (Err msg))
   \<and> (\<exists>msg. NewAlgo 9 (0x05 :: 8 word) 0 0 True True = Inl (Err msg))
   \<and> (\<exists>msg. NewAlgo 5 (0x20 :: 8 word) 0 0 True True = Inl (Err msg))
   \<and> (\<exists>a. NewAlgo 8 (0xff :: 8 word) 0xff 0xff False False = Inr a)"
  using NewAlgo_invalid_parameter_iff
          [of 5 "0x05 :: 8 word" "0x1f" "0x1f" True True, THEN conjunct2, THEN conjunct1]
        NewAlgo_invalid_parameter_iff
          [of 0 "0 :: 8 word" 0 0 True True, THEN conjunct1]
        NewAlgo_invalid_parameter_iff
          [of 9 "0x05 :: 8 word" 0 0 True True, THEN conjunct1]
        NewAlgo_invalid_parameter_iff
          [of 5 "0x20 :: 8 word" 0 0 True True, THEN conjunct1]
        NewAlgo_invalid_parameter_iff
          [of 8 "0xff :: 8 word" "0xff" "0xff" False False, THEN conjunct2, THEN conjunct1]
  by simp

section \<open>Bit length beyond the data\<close>

text \<open>
  C6: when a non-negative \<open>bitLen\<close> exceeds \<open>8 * len(data)\<close>, \<open>UpdateBits\<close> panics and
  leaves the session as it was, and \<open>CalcBits\<close> panics: nothing is truncated or wrapped.
\<close>

theorem bitLen_out_of_range_panics:
  assumes "0 \<le> bitLen" and "bitLen > 8 * int (length data)"
  shows "UpdateBits c data bitLen =
           (Some (Panic ''bitLen is greater than the number of bits in the input data''), c)
         \<and> CalcBits a data bitLen =
           Inl (Panic ''bitLen is greater than the number of bits in the input data'')"
  using assms by (simp add: UpdateBits_def CalcBits_def tblUpd_too_long)

theorem bitLen_out_of_range_panics_witness:
  "(0 :: int) \<le> 9 \<and> (9 :: int) > 8 * int (length [0x31 :: byte])
   \<and> UpdateBits (NewCRC (newTable 5 (0x05 :: 8 word) 0x1f 0x1f True True)) [0x31] 9 =
       (Some (Panic ''bitLen is greater than the number of bits in the input data''),
        NewCRC (newTable 5 0x05 0x1f 0x1f True True))
   \<and> CalcBits (newTable 5 (0x05 :: 8 word) 0x1f 0x1f True True) [0x31] 9 =
       Inl (Panic ''bitLen is greater than the number of bits in the input data'')"
  using bitLen_out_of_range_panics
    [of 9 "[0x31]" "NewCRC (newTable 5 (0x05 :: 8 word) 0x1f 0x1f True True)"
        "newTable 5 (0x05 :: 8 word) 0x1f 0x1f True True"]
  by simp

section \<open>Residue and Final\<close>

text \<open>
  C7: \<open>Residue\<close> returns the raw register when \<open>refout\<close> holds and the register
  reflected over \<open>width\<close> bits otherwise; \<open>Final\<close> returns the residue XOR \<open>xorout\<close>.
\<close>

theorem residue_final_spec:
  "fst (Residue c) = (if refout (crc_a c) then crc_reg c else reflect (crc_reg c) (width (crc_a c)))
   \<and> fst (Final c) = fst (Residue c) XOR xorout (crc_a c)"
  by (simp add: Residue_def Final_def)


section \<open>Calc and CalcBits agree\<close>

text \<open>
  C8: \<open>Calc data\<close>, \<open>CalcBits data (-1)\<close> and \<open>CalcBits data (8 * len(data))\<close> are the
  same value, and they are a value, not a panic.
\<close>

theorem calc_eq_calcBits:
  "Calc a data = CalcBits a data (- 1)
   \<and> CalcBits a data (- 1) = CalcBits a data (8 * int (length data))
   \<and> (\<exists>v. Calc a data = Inr v)"
  by (simp add: Calc_def CalcBits_def UpdateBits_def tblUpd_whole tblUpd_aligned)


section \<open>Reflection\<close>

text \<open>
  C9, as stated, fails on a register type narrower than \<open>numBits\<close>: in an 8-bit
  container \<open>reflect 1 9\<close> is 0, although bit 0 of the value is set and so bit 8 of its
  9-bit reversal would be.
\<close>

theorem reflect_narrow_counterexample:
  "reflect (1 :: 8 word) 9 = 0 \<and> bit (1 :: 8 word) 0 \<and> \<not> bit (reflect (1 :: 8 word) 9) 8"
proof -
  have "reflect (1 :: 8 word) 9 = 0" by code_simp
  then show ?thesis by simp
qed


text \<open>
  C9, amended: for \<open>numBits\<close> from 1 to the bit width of the register type, bit \<open>j\<close> of
  \<open>reflect v numBits\<close> is bit \<open>numBits - 1 - j\<close> of \<open>v\<close> when \<open>j < numBits\<close> and is clear
  otherwise; and \<open>reflectedBytes[i] = reflect(i, 8)\<close> for every \<open>i\<close> below 256.
\<close>

theorem reflect_reverses_bits:
  fixes v :: "'a::len word"
  assumes "1 \<le> numBits" and "numBits \<le> int LENGTH('a)"
  shows "(\<forall>j. bit (reflect v numBits) j \<longleftrightarrow> int j < numBits \<and> bit v (nat numBits - 1 - j))
         \<and> (\<forall>i<256. reflectedBytes ! i = reflect (of_nat i) 8)"
proof -
  have "bit (reflect v numBits) j \<longleftrightarrow> int j < numBits \<and> bit v (nat numBits - 1 - j)" for j
    using assms by (auto simp add: bit_reflect)
  moreover have "reflectedBytes ! i = reflect (of_nat i) 8" if "i < 256" for i
  proof -
    have "unat (of_nat i :: byte) = i" using that by (intro of_nat_inverse) simp_all
    with reflectedBytes_nth [of "of_nat i"] show ?thesis by simp
  qed
  ultimately show ?thesis by blast
qed


theorem reflect_reverses_bits_witness:
  "(1 :: int) \<le> 5 \<and> (5 :: int) \<le> int LENGTH(8)
   \<and> (bit (reflect (5 :: 8 word) 5) 2 \<longleftrightarrow> int 2 < 5 \<and> bit (5 :: 8 word) (nat 5 - 1 - 2))
   \<and> reflectedBytes ! 3 = reflect (of_nat 3) 8"
  using reflect_reverses_bits [of 5, where v = "5 :: 8 word"] by simp


section \<open>Frame: what the session methods leave untouched\<close>

text \<open>
  C10: \<open>Final\<close> and \<open>Residue\<close> leave the session exactly as it was, so repeating them
  in any order gives the same values; \<open>Update\<close> and \<open>UpdateBits\<close> leave every field of
  the engine (the table included) as it was.
\<close>

theorem queries_leave_session_and_engine:
  "snd (Final c) = c \<and> snd (Residue c) = c
   \<and> fst (Final (snd (Residue (snd (Final c))))) = fst (Final c)
   \<and> fst (Residue (snd (Final (snd (Residue c))))) = fst (Residue c)
   \<and> crc_a (snd (Update c data)) = crc_a c
   \<and> crc_a (snd (UpdateBits c data bitLen)) = crc_a c"
  by (simp add: Final_def Residue_def Update_def UpdateBits_def split: sum.splits)


end
